theory Spec2Isabelle
  imports Main "HOL-Library.Word"
begin

section \<open>Qt value types and the library functions the console calls\<close>

text \<open>
  The console (\<^verbatim>\<open>src/IO/Console.cpp\<close>) works on \<^verbatim>\<open>QString\<close>, a sequence of UTF-16 code
  units, and on \<^verbatim>\<open>QByteArray\<close>, a sequence of bytes. The functions of this section are
  Qt's, not the repository's; they are modelled after Qt's documentation so that the
  console's own functions can be written down call by call.
\<close>

type_synonym QChar = "16 word"
type_synonym QString = "QChar list"
type_synonym QByteArray = "8 word list"

abbreviation LF :: QChar where "LF \<equiv> 0x0A"
abbreviation CR :: QChar where "CR \<equiv> 0x0D"
abbreviation SPACE :: QChar where "SPACE \<equiv> 0x20"

text \<open>A string literal of the source, as a \<^verbatim>\<open>QString\<close>.\<close>

definition qs :: "string \<Rightarrow> QString" where
  "qs = map (\<lambda>c. of_nat (of_char c))"

text \<open>
  \<^verbatim>\<open>QString::replace(before, after)\<close>: every occurrence of \<open>bef\<close> is replaced by \<open>aft\<close>,
  scanning from the left; replaced text is not scanned again. With an empty \<open>bef\<close>,
  \<open>aft\<close> is inserted in front of every character and at the end.
\<close>

fun QString_replace :: "QString \<Rightarrow> QString \<Rightarrow> QString \<Rightarrow> QString" where
  "QString_replace bef aft [] = (if bef = [] then aft else [])"
| "QString_replace bef aft (c # cs) =
     (if bef = [] then aft @ c # QString_replace bef aft cs
      else if take (length bef) (c # cs) = bef
        then aft @ QString_replace bef aft (drop (length bef - 1) cs)
      else c # QString_replace bef aft cs)"

text \<open>\<^verbatim>\<open>QByteArray::toHex()\<close>: two lower-case hexadecimal digits for every byte.\<close>

definition hexDigit :: "nat \<Rightarrow> 8 word" where
  "hexDigit n = (if n < 10 then of_nat (48 + n) else of_nat (87 + n))"

definition toHex :: "QByteArray \<Rightarrow> QByteArray" where
  "toHex data = concat (map (\<lambda>b. [hexDigit (unat b div 16), hexDigit (unat b mod 16)]) data)"

text \<open>
  The conversions \<^verbatim>\<open>QString::fromUtf8(const QByteArray &)\<close> and
  \<^verbatim>\<open>QString::fromLatin1(const QByteArray &)\<close> of Qt 5 convert
  \<^verbatim>\<open>qstrnlen(data, size)\<close> bytes only: they stop at the first NUL byte of the array.
\<close>

definition untilNul :: "QByteArray \<Rightarrow> QByteArray" where
  "untilNul data = takeWhile (\<lambda>b. b \<noteq> 0) data"

text \<open>\<^verbatim>\<open>QString::fromLatin1\<close>: every byte in front of the first NUL is the code unit of the same value.\<close>

definition fromLatin1 :: "QByteArray \<Rightarrow> QString" where
  "fromLatin1 data = map ucast (untilNul data)"

text \<open>
  \<^verbatim>\<open>QString::fromUtf8\<close> and \<^verbatim>\<open>QString::toUtf8\<close>, the conversion between UTF-8 and UTF-16.
  \<open>decodeUtf8\<close> reads one scalar value from the front of the bytes and says how many
  bytes it took; it refuses a continuation byte in lead position, an overlong form, a
  surrogate and a value above U+10FFFF. \<open>decodeAll\<close> is the decoder's loop: it writes
  U+FFFD for a byte it cannot decode and goes on with the next byte. \<open>fromUtf8\<close> is the
  conversion of a \<^verbatim>\<open>QByteArray\<close> in Qt 5: the bytes in front of the first NUL, without the
  byte-order mark \<^verbatim>\<open>EF BB BF\<close> when they begin with one, are decoded. The encoder writes
  \<^verbatim>\<open>?\<close> for a surrogate that has no partner.
\<close>

definition isCont :: "8 word \<Rightarrow> bool" where
  "isCont b \<longleftrightarrow> 0x80 \<le> b \<and> b \<le> 0xBF"

definition low6 :: "8 word \<Rightarrow> nat" where
  "low6 b = unat b mod 64"

fun decodeUtf8 :: "QByteArray \<Rightarrow> (nat \<times> nat) option" where
  "decodeUtf8 [] = None"
| "decodeUtf8 (b # bs) =
     (let n = unat b in
      if n < 0x80 then Some (n, 1)
      else if n < 0xC2 then None
      else if n < 0xE0 then
        (case bs of
           b1 # _ \<Rightarrow> if isCont b1 then Some ((n - 0xC0) * 64 + low6 b1, 2) else None
         | _ \<Rightarrow> None)
      else if n < 0xF0 then
        (case bs of
           b1 # b2 # _ \<Rightarrow>
             (let cp = (n - 0xE0) * 4096 + low6 b1 * 64 + low6 b2 in
              if isCont b1 \<and> isCont b2 \<and> 0x800 \<le> cp \<and> \<not> (0xD800 \<le> cp \<and> cp < 0xE000)
              then Some (cp, 3) else None)
         | _ \<Rightarrow> None)
      else if n < 0xF5 then
        (case bs of
           b1 # b2 # b3 # _ \<Rightarrow>
             (let cp = (n - 0xF0) * 262144 + low6 b1 * 4096 + low6 b2 * 64 + low6 b3 in
              if isCont b1 \<and> isCont b2 \<and> isCont b3 \<and> 0x10000 \<le> cp \<and> cp < 0x110000
              then Some (cp, 4) else None)
         | _ \<Rightarrow> None)
      else None)"

definition utf16 :: "nat \<Rightarrow> QString" where
  "utf16 cp =
     (if cp < 0x10000 then [of_nat cp]
      else [of_nat (0xD800 + (cp - 0x10000) div 1024), of_nat (0xDC00 + (cp - 0x10000) mod 1024)])"

function decodeAll :: "QByteArray \<Rightarrow> QString" where
  "decodeAll [] = []"
| "decodeAll (b # bs) =
     (case decodeUtf8 (b # bs) of
        None \<Rightarrow> 0xFFFD # decodeAll bs
      | Some (cp, k) \<Rightarrow> utf16 cp @ decodeAll (drop (k - 1) bs))"
  by pat_completeness auto
termination
  by (relation "measure length") auto

definition skipBom :: "QByteArray \<Rightarrow> QByteArray" where
  "skipBom data = (if take 3 data = [0xEF, 0xBB, 0xBF] then drop 3 data else data)"

definition fromUtf8 :: "QByteArray \<Rightarrow> QString" where
  "fromUtf8 data = decodeAll (skipBom (untilNul data))"

definition encodeUtf8 :: "nat \<Rightarrow> QByteArray" where
  "encodeUtf8 cp =
     (if cp < 0x80 then [of_nat cp]
      else if cp < 0x800 then [of_nat (0xC0 + cp div 64), of_nat (0x80 + cp mod 64)]
      else if cp < 0x10000 then
        [of_nat (0xE0 + cp div 4096), of_nat (0x80 + cp div 64 mod 64), of_nat (0x80 + cp mod 64)]
      else
        [of_nat (0xF0 + cp div 262144), of_nat (0x80 + cp div 4096 mod 64),
         of_nat (0x80 + cp div 64 mod 64), of_nat (0x80 + cp mod 64)])"

fun toUtf8 :: "QString \<Rightarrow> QByteArray" where
  "toUtf8 [] = []"
| "toUtf8 (u # us) =
     (let n = unat u in
      if 0xD800 \<le> n \<and> n < 0xDC00 then
        (case us of
           v # r \<Rightarrow>
             if 0xDC00 \<le> unat v \<and> unat v < 0xE000
             then encodeUtf8 (0x10000 + (n - 0xD800) * 1024 + (unat v - 0xDC00)) @ toUtf8 r
             else 0x3F # toUtf8 us
         | [] \<Rightarrow> [0x3F])
      else if 0xDC00 \<le> n \<and> n < 0xE000 then 0x3F # toUtf8 us
      else encodeUtf8 n @ toUtf8 us)"

text \<open>
  \<^verbatim>\<open>QString::toInt(nullptr, 16)\<close>: white space around the number is ignored, a sign and
  the prefix \<^verbatim>\<open>0x\<close> are accepted, and the result is 0 when the rest is not a
  hexadecimal number that fits an \<^verbatim>\<open>int\<close>.
\<close>

definition hexValue :: "QChar \<Rightarrow> nat option" where
  "hexValue c =
     (let n = unat c in
      if 48 \<le> n \<and> n \<le> 57 then Some (n - 48)
      else if 97 \<le> n \<and> n \<le> 102 then Some (n - 87)
      else if 65 \<le> n \<and> n \<le> 70 then Some (n - 55)
      else None)"

definition isHexDigit :: "QChar \<Rightarrow> bool" where
  "isHexDigit c \<longleftrightarrow> hexValue c \<noteq> None"

definition isSpace :: "QChar \<Rightarrow> bool" where
  "isSpace c \<longleftrightarrow>
     (let n = unat c in
      n = 0x20 \<or> (9 \<le> n \<and> n \<le> 13) \<or> n = 0x85 \<or> n = 0xA0 \<or> n = 0x1680 \<or>
      (0x2000 \<le> n \<and> n \<le> 0x200A) \<or> n = 0x2028 \<or> n = 0x2029 \<or> n = 0x202F \<or>
      n = 0x205F \<or> n = 0x3000)"

definition hexNumber :: "QString \<Rightarrow> nat" where
  "hexNumber ds = foldl (\<lambda>v d. 16 * v + (case hexValue d of Some x \<Rightarrow> x | None \<Rightarrow> 0)) 0 ds"

definition toInt16 :: "QString \<Rightarrow> int" where
  "toInt16 str =
     (let t = rev (dropWhile isSpace (rev (dropWhile isSpace str)));
          neg = (t \<noteq> [] \<and> (hd t = 0x2D \<or> hd t = 0x2212));
          r = (if t \<noteq> [] \<and> (hd t = 0x2D \<or> hd t = 0x2212 \<or> hd t = 0x2B) then tl t else t);
          ds = (if length r > 2 \<and> hd r = 0x30 \<and> (r ! 1 = 0x78 \<or> r ! 1 = 0x58) then drop 2 r else r);
          v = (if neg then - int (hexNumber ds) else int (hexNumber ds))
      in if ds \<noteq> [] \<and> list_all isHexDigit ds \<and> - (2 ^ 31) \<le> v \<and> v < 2 ^ 31 then v else 0)"

section \<open>The console\<close>

datatype DataMode = DataUTF8 | DataHexadecimal

datatype LineEnding = NoLineEnding | NewLine | CarriageReturn | BothNewLineAndCarriageReturn

datatype DisplayMode = DisplayPlainText | DisplayHexadecimal

text \<open>
  The object is a record of its members. The Qt signals of the class are a datatype, and
  the state keeps the signals emitted so far, oldest first. \<^verbatim>\<open>save()\<close> and \<^verbatim>\<open>copy()\<close>, which
  only read the lines and talk to the file dialog and the clipboard, are left out.
\<close>

datatype signal =
    dataReceived
  | lineReceived QString
  | stringReceived QString
  | historyItemChanged
  | echoChanged
  | dataModeChanged
  | showTimestampChanged
  | autoscrollChanged
  | lineEndingChanged
  | displayModeChanged

record Console =
  m_dataMode :: DataMode
  m_lineEnding :: LineEnding
  m_displayMode :: DisplayMode
  m_historyItem :: int
  m_echo :: bool
  m_autoscroll :: bool
  m_showTimestamp :: bool
  m_timestampAdded :: bool
  m_historyItems :: "QString list"
  m_lines :: "QString list"
  m_dataBuffer :: QByteArray
  emitted :: "signal list"

definition emit :: "signal \<Rightarrow> Console \<Rightarrow> Console" where
  "emit sg s = s\<lparr>emitted := emitted s @ [sg]\<rparr>"

definition lineCount :: "Console \<Rightarrow> nat" where
  "lineCount s = length (m_lines s)"

definition clear :: "Console \<Rightarrow> Console" where
  "clear s = emit dataReceived (s\<lparr>m_lines := [], m_dataBuffer := []\<rparr>)"

text \<open>The constructor: the member initialisers, then \<^verbatim>\<open>clear()\<close>.\<close>

definition newConsole :: Console where
  "newConsole = clear
     \<lparr>m_dataMode = DataUTF8, m_lineEnding = NoLineEnding, m_displayMode = DisplayPlainText,
      m_historyItem = 0, m_echo = False, m_autoscroll = True, m_showTimestamp = True,
      m_timestampAdded = False, m_historyItems = [], m_lines = [], m_dataBuffer = [],
      emitted = []\<rparr>"

definition currentHistoryString :: "Console \<Rightarrow> QString" where
  "currentHistoryString s =
     (if m_historyItem s < int (length (m_historyItems s)) \<and> m_historyItem s \<ge> 0
      then m_historyItems s ! nat (m_historyItem s) else [])"

definition historyUp :: "Console \<Rightarrow> Console" where
  "historyUp s =
     (if m_historyItem s > 0
      then emit historyItemChanged (s\<lparr>m_historyItem := m_historyItem s - 1\<rparr>) else s)"

definition historyDown :: "Console \<Rightarrow> Console" where
  "historyDown s =
     (if m_historyItem s < int (length (m_historyItems s)) - 1
      then emit historyItemChanged (s\<lparr>m_historyItem := m_historyItem s + 1\<rparr>) else s)"


definition setDataMode :: "DataMode \<Rightarrow> Console \<Rightarrow> Console" where
  "setDataMode mode s = emit dataModeChanged (s\<lparr>m_dataMode := mode\<rparr>)"

definition setShowTimestamp :: "bool \<Rightarrow> Console \<Rightarrow> Console" where
  "setShowTimestamp enabled s = emit showTimestampChanged (s\<lparr>m_showTimestamp := enabled\<rparr>)"

definition setAutoscroll :: "bool \<Rightarrow> Console \<Rightarrow> Console" where
  "setAutoscroll enabled s = emit autoscrollChanged (s\<lparr>m_autoscroll := enabled\<rparr>)"


definition setDisplayMode :: "DisplayMode \<Rightarrow> Console \<Rightarrow> Console" where
  "setDisplayMode mode s = emit displayModeChanged (s\<lparr>m_displayMode := mode\<rparr>)"

subsection \<open>Command history\<close>

text \<open>The loop \<^verbatim>\<open>while (m_historyItems.count() > 100) m_historyItems.removeFirst();\<close>\<close>

function removeOld :: "QString list \<Rightarrow> QString list" where
  "removeOld items = (if length items > 100 then removeOld (tl items) else items)"
  by pat_completeness auto
termination
  by (relation "measure length") auto

definition addToHistory :: "QString \<Rightarrow> Console \<Rightarrow> Console" where
  "addToHistory command s =
     (let items = removeOld (m_historyItems s) @ [command]
      in emit historyItemChanged
           (s\<lparr>m_historyItems := items, m_historyItem := int (length items)\<rparr>))"

subsection \<open>Codec\<close>

text \<open>
  \<^verbatim>\<open>hexToBytes\<close>: the loop reads \<^verbatim>\<open>at(i)\<close> and \<^verbatim>\<open>at(i + 1)\<close> for \<open>i = 0, 2, 4, ...\<close>. With an odd
  number of characters the last \<^verbatim>\<open>at(i + 1)\<close> is past the end of the string, which
  \<^verbatim>\<open>QString::at\<close> does not allow: the result \<open>None\<close>. The \<^verbatim>\<open>int\<close> that \<^verbatim>\<open>toInt\<close> returns is
  narrowed to a \<^verbatim>\<open>char\<close> by \<^verbatim>\<open>QByteArray::append\<close>.
\<close>

fun hexToBytes_loop :: "QString \<Rightarrow> QByteArray option" where
  "hexToBytes_loop [] = Some []"
| "hexToBytes_loop [chr1] = None"
| "hexToBytes_loop (chr1 # chr2 # rest) =
     (case hexToBytes_loop rest of
        None \<Rightarrow> None
      | Some array \<Rightarrow> Some (of_int (toInt16 [chr1, chr2]) # array))"

definition hexToBytes :: "QString \<Rightarrow> QByteArray option" where
  "hexToBytes data = hexToBytes_loop (QString_replace [SPACE] [] data)"

definition plainTextStr :: "QByteArray \<Rightarrow> QString" where
  "plainTextStr data =
     (let str = fromUtf8 data
      in if toUtf8 str \<noteq> data then fromLatin1 data else str)"

text \<open>The first loop of \<^verbatim>\<open>hexadecimalStr\<close>, from index \<open>i\<close> on.\<close>

fun spaced :: "nat \<Rightarrow> QString \<Rightarrow> QString" where
  "spaced i [] = []"
| "spaced i (c # cs) =
     (if (i + 1) mod 2 = 0 then c # SPACE # spaced (i + 1) cs else c # spaced (i + 1) cs)"

definition hexadecimalStr :: "QByteArray \<Rightarrow> QString" where
  "hexadecimalStr data =
     (let hex = fromUtf8 (toHex data);
          str = spaced 0 hex;
          str1 = QString_replace (qs ''0a'') (qs ''0a'' @ [CR]) str
      in QString_replace (qs ''0d'') (qs ''0d'' @ [LF]) str1)"

definition dataToString :: "Console \<Rightarrow> QByteArray \<Rightarrow> QString" where
  "dataToString s data =
     (case m_displayMode s of
        DisplayPlainText \<Rightarrow> plainTextStr data
      | DisplayHexadecimal \<Rightarrow> hexadecimalStr data)"

subsection \<open>Line buffer\<close>

text \<open>
  \<^verbatim>\<open>append\<close>. The string \<open>now\<close> stands for
  \<^verbatim>\<open>QDateTime::currentDateTime().toString("HH:mm:ss.zzz -> ")\<close>, the only thing the
  function reads from outside the object. \<open>append_step\<close> is the body of the loop over
  the characters; \<open>emitLines\<close> is the loop that emits \<^verbatim>\<open>lineReceived\<close>.
\<close>

definition append_step :: "QString \<Rightarrow> QChar \<Rightarrow> Console \<Rightarrow> Console" where
  "append_step timestamp c s =
     (let s1 = (if \<not> m_timestampAdded s
                then s\<lparr>m_lines := (m_lines s)[lineCount s - 1 := last (m_lines s) @ timestamp],
                       m_timestampAdded := True\<rparr>
                else s)
      in if c = LF \<or> c = CR
         then s1\<lparr>m_lines := m_lines s1 @ [[]], m_timestampAdded := False\<rparr>
         else s1\<lparr>m_lines := (m_lines s1)[lineCount s1 - 1 := last (m_lines s1) @ [c]]\<rparr>)"

primrec append_loop :: "QString \<Rightarrow> QString \<Rightarrow> Console \<Rightarrow> Console" where
  "append_loop timestamp [] s = s"
| "append_loop timestamp (c # cs) s = append_loop timestamp cs (append_step timestamp c s)"

definition emitLines :: "nat \<Rightarrow> nat \<Rightarrow> Console \<Rightarrow> Console" where
  "emitLines oldLineCount newLineCount s =
     s\<lparr>emitted := emitted s @
          map (\<lambda>i. lineReceived (m_lines s ! (i - 1))) [oldLineCount..<newLineCount]\<rparr>"

definition Console_append :: "QString \<Rightarrow> QString \<Rightarrow> bool \<Rightarrow> Console \<Rightarrow> Console" where
  "Console_append now string addTimestamp s =
     (if string = [] then s
      else
        let timestamp = (if addTimestamp then now else []);
            data = QString_replace [CR, LF] [LF] string;
            s1 = (if lineCount s = 0 then s\<lparr>m_lines := m_lines s @ [[]]\<rparr> else s);
            oldLineCount = lineCount s1;
            s2 = append_loop timestamp data s1;
            newLineCount = lineCount s2;
            s3 = emitLines oldLineCount newLineCount s2;
            s4 = (if newLineCount = oldLineCount then emit (stringReceived data) s3 else s3)
        in emit dataReceived s4)"

subsection \<open>Ingest queue\<close>

definition displayData :: "QString \<Rightarrow> Console \<Rightarrow> Console" where
  "displayData now s =
     (Console_append now (dataToString s (m_dataBuffer s)) (m_showTimestamp s) s)
       \<lparr>m_dataBuffer := []\<rparr>"

definition onDataReceived :: "QByteArray \<Rightarrow> Console \<Rightarrow> Console" where
  "onDataReceived data s = s\<lparr>m_dataBuffer := m_dataBuffer s @ data\<rparr>"

subsection \<open>Sending\<close>

text \<open>
  \<^verbatim>\<open>send\<close>. \<open>connected\<close> is what \<^verbatim>\<open>Manager::connected()\<close> answers and \<open>writeData\<close> what
  \<^verbatim>\<open>Manager::writeData\<close> returns for the bytes it is given. The result is \<open>None\<close> when
  \<^verbatim>\<open>hexToBytes\<close> reads past the end of its string. A failed write only logs a warning,
  which is no part of the console's state.
\<close>

definition eolBytes :: "LineEnding \<Rightarrow> QByteArray" where
  "eolBytes e =
     (case e of
        NoLineEnding \<Rightarrow> []
      | NewLine \<Rightarrow> [0x0A]
      | CarriageReturn \<Rightarrow> [0x0D]
      | BothNewLineAndCarriageReturn \<Rightarrow> [0x0D, 0x0A])"

definition send :: "bool \<Rightarrow> (QByteArray \<Rightarrow> int) \<Rightarrow> QString \<Rightarrow> QString \<Rightarrow> Console \<Rightarrow> Console option" where
  "send connected writeData now data s =
     (if data = [] \<or> \<not> connected then Some s
      else
        let s1 = addToHistory data s in
        case (if m_dataMode s1 = DataHexadecimal then hexToBytes data else Some (toUtf8 data)) of
          None \<Rightarrow> None
        | Some bin0 \<Rightarrow>
            (let bin = bin0 @ eolBytes (m_lineEnding s1);
                 bytes = writeData bin
             in if bytes > 0 then
                  (if m_echo s1
                   then Some ((Console_append now (dataToString s1 bin) (m_showTimestamp s1) s1)
                                \<lparr>m_timestampAdded := False\<rparr>)
                   else Some s1)
                else Some s1))"

section \<open>Vocabulary of the properties\<close>

subsection \<open>Command history\<close>

text \<open>\<^verbatim>\<open>addToHistory\<close> called once for every command of a list, in order.\<close>

definition pushAll :: "Console \<Rightarrow> QString list \<Rightarrow> Console" where
  "pushAll s cs = foldl (\<lambda>s c. addToHistory c s) s cs"

subsection \<open>Hexadecimal text\<close>

text \<open>
  The hexadecimal digit of a value below 16 as a character, the two digits of a byte,
  and what the display shows for one byte when line breaks follow byte values: the two
  digits, a carriage return behind the byte \<^verbatim>\<open>0a\<close>, a line feed behind the byte \<^verbatim>\<open>0d\<close>,
  and a space.
\<close>

definition hexChar :: "nat \<Rightarrow> QChar" where
  "hexChar n = ucast (hexDigit n)"

definition hexPair :: "8 word \<Rightarrow> QString" where
  "hexPair b = [hexChar (unat b div 16), hexChar (unat b mod 16)]"

definition hexByteStr :: "8 word \<Rightarrow> QString" where
  "hexByteStr b =
     hexPair b @ (if b = 0x0A then [CR] else if b = 0x0D then [LF] else []) @ [SPACE]"

text \<open>
  Reading a string as consecutive groups of two hexadecimal digits, one byte per group;
  a string without its spaces; a string without spaces and line breaks.
\<close>

fun hexPairs :: "QString \<Rightarrow> QByteArray" where
  "hexPairs (h # l # rest) =
     of_nat (16 * (case hexValue h of Some x \<Rightarrow> x | None \<Rightarrow> 0) +
             (case hexValue l of Some x \<Rightarrow> x | None \<Rightarrow> 0)) # hexPairs rest"
| "hexPairs _ = []"

definition stripSpaces :: "QString \<Rightarrow> QString" where
  "stripSpaces str = filter (\<lambda>c. c \<noteq> SPACE) str"

definition hexDigits :: "QString \<Rightarrow> QString" where
  "hexDigits str = filter (\<lambda>c. c \<noteq> SPACE \<and> c \<noteq> CR \<and> c \<noteq> LF) str"

subsection \<open>Lines and timestamps\<close>


text \<open>
  The calls that write to the lines: \<^verbatim>\<open>append\<close>, with the timestamp string of its
  \<^verbatim>\<open>QDateTime\<close> and its two arguments, and \<^verbatim>\<open>send\<close>, with the arguments of its model. A run
  performs a list of calls in order and returns no state when one of them does not.
\<close>

datatype call =
    Append QString QString bool
  | Send bool "QByteArray \<Rightarrow> int" QString QString

fun perform :: "call \<Rightarrow> Console \<Rightarrow> Console option" where
  "perform (Append now string addTimestamp) s = Some (Console_append now string addTimestamp s)"
| "perform (Send connected writeData now data) s = send connected writeData now data s"


text \<open>
  The text that a \<^verbatim>\<open>send\<close> echoes: the display string of the bytes it wrote, when there
  are data and a connection, the write succeeds and echo is on; nothing otherwise.
\<close>

definition echoText :: "bool \<Rightarrow> (QByteArray \<Rightarrow> int) \<Rightarrow> QString \<Rightarrow> Console \<Rightarrow> QString option" where
  "echoText connected writeData data s =
     (if data = [] \<or> \<not> connected then None
      else
        case (if m_dataMode s = DataHexadecimal then hexToBytes data else Some (toUtf8 data)) of
          None \<Rightarrow> None
        | Some bin0 \<Rightarrow>
            (let bin = bin0 @ eolBytes (m_lineEnding s)
             in if writeData bin > 0 \<and> m_echo s then Some (dataToString s bin) else None))"

text \<open>
  The text that a call appends to the lines, and the timestamp that it hands to
  \<^verbatim>\<open>append\<close>: the empty string when the call asks for no timestamp.
\<close>

fun shown :: "call \<Rightarrow> Console \<Rightarrow> QString" where
  "shown (Append now string addTimestamp) s = string"
| "shown (Send connected writeData now data) s =
     (case echoText connected writeData data s of None \<Rightarrow> [] | Some echoed \<Rightarrow> echoed)"

fun stampOf :: "call \<Rightarrow> Console \<Rightarrow> QString" where
  "stampOf (Append now string addTimestamp) s = (if addTimestamp then now else [])"
| "stampOf (Send connected writeData now data) s = (if m_showTimestamp s then now else [])"

text \<open>
  A line is open with text and the flag clear: the next character that arrives with a
  timestamp is stamped although it does not start the line. A call stamps in the
  middle of a line when it appends text with a timestamp in such a state; a run stamps
  at line starts when none of its calls does.
\<close>

definition openText :: "Console \<Rightarrow> bool" where
  "openText s \<longleftrightarrow> \<not> m_timestampAdded s \<and> m_lines s \<noteq> [] \<and> last (m_lines s) \<noteq> []"

definition stampsMidLine :: "call \<Rightarrow> Console \<Rightarrow> bool" where
  "stampsMidLine c s \<longleftrightarrow> shown c s \<noteq> [] \<and> stampOf c s \<noteq> [] \<and> openText s"

fun stampsAtStart :: "Console \<Rightarrow> call list \<Rightarrow> bool" where
  "stampsAtStart s [] = True"
| "stampsAtStart s (c # cs) =
     (\<not> stampsMidLine c s \<and>
      (case perform c s of None \<Rightarrow> True | Some s' \<Rightarrow> stampsAtStart s' cs))"





text \<open>
  A text that ends in a line break, and the calls that leave no text on an open line
  with the flag clear: every \<^verbatim>\<open>append\<close>, every \<^verbatim>\<open>send\<close> that echoes nothing, and every echo
  whose normalised text ends in a line break.
\<close>

definition endsLine :: "QString \<Rightarrow> bool" where
  "endsLine str \<longleftrightarrow> str \<noteq> [] \<and> (last str = LF \<or> last str = CR)"

fun closedCall :: "call \<Rightarrow> Console \<Rightarrow> bool" where
  "closedCall (Append now string addTimestamp) s = True"
| "closedCall (Send connected writeData now data) s =
     (case echoText connected writeData data s of
        None \<Rightarrow> True
      | Some echoed \<Rightarrow> endsLine (QString_replace [CR, LF] [LF] echoed))"

fun closedCalls :: "Console \<Rightarrow> call list \<Rightarrow> bool" where
  "closedCalls s [] = True"
| "closedCalls s (c # cs) =
     (closedCall c s \<and> (case perform c s of None \<Rightarrow> True | Some s' \<Rightarrow> closedCalls s' cs))"

subsection \<open>Well-formed UTF-8\<close>

text \<open>
  The well-formed byte sequences of the Unicode standard (table 3-7): the second byte
  of a sequence is restricted after the lead bytes \<^verbatim>\<open>E0\<close>, \<^verbatim>\<open>ED\<close>, \<^verbatim>\<open>F0\<close> and \<^verbatim>\<open>F4\<close>.
\<close>

definition secondOk :: "8 word \<Rightarrow> 8 word \<Rightarrow> bool" where
  "secondOk lead b1 =
     (if lead = 0xE0 then 0xA0 \<le> b1 \<and> b1 \<le> 0xBF
      else if lead = 0xED then 0x80 \<le> b1 \<and> b1 \<le> 0x9F
      else if lead = 0xF0 then 0x90 \<le> b1 \<and> b1 \<le> 0xBF
      else if lead = 0xF4 then 0x80 \<le> b1 \<and> b1 \<le> 0x8F
      else isCont b1)"

fun valid_utf8 :: "QByteArray \<Rightarrow> bool" where
  "valid_utf8 [] = True"
| "valid_utf8 (b # bs) =
     (if b \<le> 0x7F then valid_utf8 bs
      else if 0xC2 \<le> b \<and> b \<le> 0xDF then
        (case bs of b1 # r \<Rightarrow> isCont b1 \<and> valid_utf8 r | _ \<Rightarrow> False)
      else if 0xE0 \<le> b \<and> b \<le> 0xEF then
        (case bs of b1 # b2 # r \<Rightarrow> secondOk b b1 \<and> isCont b2 \<and> valid_utf8 r | _ \<Rightarrow> False)
      else if 0xF0 \<le> b \<and> b \<le> 0xF4 then
        (case bs of
           b1 # b2 # b3 # r \<Rightarrow> secondOk b b1 \<and> isCont b2 \<and> isCont b3 \<and> valid_utf8 r
         | _ \<Rightarrow> False)
      else False)"

text \<open>A Unicode scalar value: at most U+10FFFF and no surrogate.\<close>

definition scalar :: "nat \<Rightarrow> bool" where
  "scalar cp \<longleftrightarrow> cp < 0x110000 \<and> \<not> (0xD800 \<le> cp \<and> cp < 0xE000)"


section \<open>Properties of the command history\<close>

lemma removeOld_drop: "removeOld items = drop (length items - 100) items"
proof (induction items rule: removeOld.induct)
  case (1 items)
  show ?case
  proof (cases "length items > 100")
    case True
    then have "items \<noteq> []" by auto
    then obtain x xs where xs: "items = x # xs" by (cases items) auto
    from True "1" have "removeOld items = drop (length (tl items) - 100) (tl items)"
      by (simp del: removeOld.simps add: removeOld.simps [of items])
    also have "\<dots> = drop (length items - 100) items"
    proof -
      have "length items - 100 = Suc (length (tl items) - 100)"
        using True xs by simp
      then show ?thesis using xs by simp
    qed
    finally show ?thesis .
  next
    case False
    then show ?thesis by simp
  qed
qed

lemma addToHistory_items:
  "m_historyItems (addToHistory c s) =
     drop (length (m_historyItems s) - 100) (m_historyItems s) @ [c]"
  by (simp add: addToHistory_def emit_def removeOld_drop Let_def del: removeOld.simps)

lemma addToHistory_cursor:
  "m_historyItem (addToHistory c s) = int (length (m_historyItems (addToHistory c s)))"
  by (simp add: addToHistory_def emit_def Let_def del: removeOld.simps)

lemma drop_last_101:
  "drop (length (drop (length A - 101) A) - 100) (drop (length A - 101) A) @ [c] =
   drop (length (A @ [c]) - 101) (A @ [c])"
proof -
  have "length A - (length A - 101) - 100 + (length A - 101) = length A - 100"
    by arith
  then have "drop (length (drop (length A - 101) A) - 100) (drop (length A - 101) A) =
    drop (length A - 100) A"
    by simp
  then show ?thesis by simp
qed

text \<open>After at least one push the history is the last 101 entries of everything pushed.\<close>

lemma pushAll_items:
  "cs \<noteq> [] \<Longrightarrow>
   m_historyItems (pushAll s cs) =
     drop (length (m_historyItems s @ cs) - 101) (m_historyItems s @ cs)"
proof (induction cs rule: rev_induct)
  case Nil
  then show ?case by simp
next
  case (snoc c cs)
  show ?case
  proof (cases "cs = []")
    case True
    then show ?thesis
      by (simp add: pushAll_def addToHistory_items)
  next
    case False
    with snoc have IH: "m_historyItems (pushAll s cs) =
      drop (length (m_historyItems s @ cs) - 101) (m_historyItems s @ cs)" by simp
    have "m_historyItems (pushAll s (cs @ [c])) =
       drop (length (m_historyItems (pushAll s cs)) - 100) (m_historyItems (pushAll s cs)) @ [c]"
      by (simp add: pushAll_def addToHistory_items)
    also have "\<dots> =
       drop (length ((m_historyItems s @ cs) @ [c]) - 101) ((m_historyItems s @ cs) @ [c])"
      unfolding IH by (rule drop_last_101)
    finally show ?thesis by simp
  qed
qed

lemma pushAll_cursor:
  "cs \<noteq> [] \<Longrightarrow> m_historyItem (pushAll s cs) = int (length (m_historyItems (pushAll s cs)))"
  by (induction cs rule: rev_induct) (simp_all add: pushAll_def addToHistory_cursor)

text \<open>
  C1. The claim: 150 pushes of distinct values leave exactly the last 100 of them, cursor
  at 100, and the history never holds more than 100 entries. The loop of
  \<^verbatim>\<open>addToHistory\<close> removes entries only while the history holds more than 100, and
  does so before it appends: from any starting state, 150 pushes of the values
  \<open>f 0, ..., f 149\<close> leave the last 101 of them, \<open>f 49, ..., f 149\<close>, oldest first,
  and the cursor at 101.
\<close>

theorem history_keeps_101:
  "m_historyItems (pushAll s (map f [0..<150])) = map f [49..<150] \<and>
   length (m_historyItems (pushAll s (map f [0..<150]))) = 101 \<and>
   m_historyItem (pushAll s (map f [0..<150])) = 101"
proof -
  have ne: "map f [0..<150] \<noteq> []" by simp
  have items: "m_historyItems (pushAll s (map f [0..<150])) = map f [49..<150]"
    unfolding pushAll_items [OF ne] by (simp add: drop_map)
  moreover have "m_historyItem (pushAll s (map f [0..<150])) = 101"
    unfolding pushAll_cursor [OF ne] items by simp
  ultimately show ?thesis by simp
qed

section \<open>Properties of the hexadecimal codec\<close>

subsection \<open>Digits\<close>

lemma unat_hexChar: "n < 16 \<Longrightarrow> unat (hexChar n) = (if n < 10 then 48 + n else 87 + n)"
  by (simp add: hexChar_def hexDigit_def unsigned_ucast_eq take_bit_eq_mod unat_word_ariths
      unat_of_nat)

lemma hexValue_hexChar: "n < 16 \<Longrightarrow> hexValue (hexChar n) = Some n"
  by (simp add: hexValue_def unat_hexChar Let_def)

lemma hexChar_eq_iff:
  "n < 16 \<Longrightarrow>
   hexChar n = numeral k \<longleftrightarrow> (if n < 10 then 48 + n else 87 + n) = unat (numeral k :: QChar)"
  by (simp only: word_unat_eq_iff [of "hexChar n"] unat_hexChar)

lemma hexChar_not_break: "n < 16 \<Longrightarrow> hexChar n \<noteq> SPACE \<and> hexChar n \<noteq> CR \<and> hexChar n \<noteq> LF"
  by (simp add: hexChar_eq_iff)

lemma isHexDigit_hexChar: "n < 16 \<Longrightarrow> isHexDigit (hexChar n)"
  by (simp add: isHexDigit_def hexValue_hexChar)

lemma nibbles: "unat b div 16 < 16" "unat b mod 16 < 16" for b :: "8 word"
  using unsigned_less [of b, where 'a = nat] by simp_all

lemma hexPair_eq_iff:
  "m < 16 \<Longrightarrow> n < 16 \<Longrightarrow> hexPair b = [hexChar m, hexChar n] \<longleftrightarrow> unat b = 16 * m + n"
proof -
  assume mn: "m < 16" "n < 16"
  have inj: "hexChar i = hexChar j \<longleftrightarrow> i = j" if "i < 16" "j < 16" for i j
    using that by (auto simp: word_unat_eq_iff [of "hexChar i"] unat_hexChar split: if_splits)
  show ?thesis
    using mn by (auto simp: hexPair_def inj nibbles)
qed

lemma qs_0a: "qs ''0a'' = [hexChar 0, hexChar 10]"
  by (simp add: qs_def hexChar_def hexDigit_def)

lemma qs_0d: "qs ''0d'' = [hexChar 0, hexChar 13]"
  by (simp add: qs_def hexChar_def hexDigit_def)

lemma hexPair_0a: "hexPair b = [hexChar 0, hexChar 10] \<longleftrightarrow> b = 0x0A"
  by (simp add: hexPair_eq_iff word_unat_eq_iff [of b])

lemma hexPair_0d: "hexPair b = [hexChar 0, hexChar 13] \<longleftrightarrow> b = 0x0D"
  by (simp add: hexPair_eq_iff word_unat_eq_iff [of b])

lemma hexPair_10: "hexPair 0x0A = [hexChar 0, hexChar 10]"
  by (simp add: hexPair_def)

lemma hexPair_13: "hexPair 0x0D = [hexChar 0, hexChar 13]"
  by (simp add: hexPair_def)

subsection \<open>The text that \<^verbatim>\<open>hexadecimalStr\<close> builds\<close>

lemma decodeAll_ascii: "\<forall>b\<in>set bs. b < 0x80 \<Longrightarrow> decodeAll bs = map ucast bs"
proof (induction bs)
  case Nil
  then show ?case by simp
next
  case (Cons b bs)
  then have "unat b < 0x80" by (simp add: word_less_nat_alt)
  then have "decodeUtf8 (b # bs) = Some (unat b, 1)" by simp
  moreover have "utf16 (unat b) = [ucast b]"
    using \<open>unat b < 0x80\<close> by (simp add: utf16_def)
  ultimately show ?case using Cons by simp
qed

lemma hexDigit_ascii: "n < 16 \<Longrightarrow> hexDigit n < 0x80 \<and> hexDigit n \<noteq> 0"
  by (simp add: hexDigit_def word_less_nat_alt word_unat_eq_iff unat_word_ariths unat_of_nat)

text \<open>Hexadecimal digits hold no NUL byte and no byte-order mark.\<close>

lemma fromUtf8_hexDigits:
  assumes "\<forall>b\<in>set bs. b < 0x80 \<and> b \<noteq> 0"
  shows "fromUtf8 bs = map ucast bs"
proof -
  have "untilNul bs = bs"
    using assms by (simp add: untilNul_def takeWhile_eq_all_conv)
  moreover have "skipBom bs = bs"
  proof (cases bs)
    case Nil
    then show ?thesis by (simp add: skipBom_def)
  next
    case (Cons b bs')
    with assms have "b < 0x80" by simp
    then have "b \<noteq> 0xEF" by auto
    then show ?thesis using Cons by (simp add: skipBom_def)
  qed
  moreover have "decodeAll bs = map ucast bs"
    using assms by (intro decodeAll_ascii) simp
  ultimately show ?thesis by (simp add: fromUtf8_def)
qed

lemma fromUtf8_toHex: "fromUtf8 (toHex data) = concat (map hexPair data)"
proof -
  have "\<forall>b\<in>set (toHex data). b < 0x80 \<and> b \<noteq> 0"
    by (auto simp: toHex_def hexDigit_ascii nibbles)
  then have "fromUtf8 (toHex data) = map ucast (toHex data)"
    by (rule fromUtf8_hexDigits)
  also have "\<dots> = concat (map hexPair data)"
    by (simp add: toHex_def hexChar_def hexPair_def [abs_def] map_concat comp_def)
  finally show ?thesis .
qed

lemma spaced_pairs:
  "even i \<Longrightarrow> spaced i (concat (map hexPair bs)) = concat (map (\<lambda>b. hexPair b @ [SPACE]) bs)"
  by (induction bs arbitrary: i) (simp_all add: hexPair_def mod_Suc)

text \<open>
  A pattern of two characters is found only at the front of a block of the text: the
  characters behind the two digits of a block are none of the pattern's.
\<close>

lemma replace_skip:
  "p \<notin> set r \<Longrightarrow> QString_replace [p, q] aft (r @ rest) = r @ QString_replace [p, q] aft rest"
  by (induction r) auto

lemma replace_block:
  assumes "r \<noteq> []" "p \<notin> set r" "hd r \<noteq> q"
  shows "QString_replace [p, q] aft (x # y # r @ rest) =
     (if x = p \<and> y = q then aft else [x, y]) @ r @ QString_replace [p, q] aft rest"
proof -
  obtain r0 r' where r: "r = r0 # r'" using assms(1) by (cases r) auto
  show ?thesis
  proof (cases "x = p \<and> y = q")
    case True
    then show ?thesis using replace_skip [OF assms(2), of q aft rest] by simp
  next
    case False
    have "QString_replace [p, q] aft (y # r @ rest) = y # QString_replace [p, q] aft (r @ rest)"
      using assms(3) r by simp
    then show ?thesis
      using False replace_skip [OF assms(2), of q aft rest] by auto
  qed
qed

lemma replace_blocks:
  assumes "\<And>b. tailOf b \<noteq> [] \<and> p \<notin> set (tailOf b) \<and> hd (tailOf b) \<noteq> q"
  shows "QString_replace [p, q] aft (concat (map (\<lambda>b. hexPair b @ tailOf b) bs)) =
     concat (map (\<lambda>b. (if hexPair b = [p, q] then aft else hexPair b) @ tailOf b) bs)"
proof (induction bs)
  case Nil
  then show ?case by simp
next
  case (Cons b bs)
  have "QString_replace [p, q] aft
          (hexChar (unat b div 16) # hexChar (unat b mod 16) # tailOf b @
             concat (map (\<lambda>b. hexPair b @ tailOf b) bs)) =
        (if hexChar (unat b div 16) = p \<and> hexChar (unat b mod 16) = q then aft
         else [hexChar (unat b div 16), hexChar (unat b mod 16)]) @ tailOf b @
        QString_replace [p, q] aft (concat (map (\<lambda>b. hexPair b @ tailOf b) bs))"
    using assms [of b] by (intro replace_block) auto
  then show ?case using Cons by (simp add: hexPair_def)
qed

lemma hexadecimalStr_bytes: "hexadecimalStr data = concat (map hexByteStr data)"
proof -
  have s0: "spaced 0 (concat (map hexPair data)) = concat (map (\<lambda>b. hexPair b @ [SPACE]) data)"
    by (rule spaced_pairs) simp
  have s1: "QString_replace [hexChar 0, hexChar 10] ([hexChar 0, hexChar 10] @ [CR])
              (concat (map (\<lambda>b. hexPair b @ [SPACE]) data)) =
            concat (map (\<lambda>b. hexPair b @ (if b = 0x0A then [CR] else []) @ [SPACE]) data)"
  proof -
    have "QString_replace [hexChar 0, hexChar 10] ([hexChar 0, hexChar 10] @ [CR])
              (concat (map (\<lambda>b. hexPair b @ [SPACE]) data)) =
          concat (map (\<lambda>b. (if hexPair b = [hexChar 0, hexChar 10]
                             then [hexChar 0, hexChar 10] @ [CR] else hexPair b) @ [SPACE]) data)"
      by (rule replace_blocks) (simp add: hexChar_eq_iff)
    also have "\<dots> = concat (map (\<lambda>b. hexPair b @ (if b = 0x0A then [CR] else []) @ [SPACE]) data)"
      by (rule arg_cong [where f = concat], rule map_cong) (auto simp: hexPair_0a hexPair_10)
    finally show ?thesis .
  qed
  have s2: "QString_replace [hexChar 0, hexChar 13] ([hexChar 0, hexChar 13] @ [LF])
              (concat (map (\<lambda>b. hexPair b @ (if b = 0x0A then [CR] else []) @ [SPACE]) data)) =
            concat (map hexByteStr data)"
  proof -
    have "QString_replace [hexChar 0, hexChar 13] ([hexChar 0, hexChar 13] @ [LF])
              (concat (map (\<lambda>b. hexPair b @ (if b = 0x0A then [CR] else []) @ [SPACE]) data)) =
          concat (map (\<lambda>b. (if hexPair b = [hexChar 0, hexChar 13]
                             then [hexChar 0, hexChar 13] @ [LF] else hexPair b) @
                            (if b = 0x0A then [CR] else []) @ [SPACE]) data)"
      by (rule replace_blocks) (simp add: hexChar_eq_iff)
    also have "\<dots> = concat (map hexByteStr data)"
      by (rule arg_cong [where f = concat], rule map_cong)
        (auto simp: hexPair_0d hexPair_13 hexByteStr_def)
    finally show ?thesis .
  qed
  show ?thesis
    unfolding hexadecimalStr_def Let_def fromUtf8_toHex s0 qs_0a qs_0d s1 s2 ..
qed

lemma breaks_iff:
  "(CR \<in> set (hexByteStr b) \<longleftrightarrow> b = 0x0A) \<and> (LF \<in> set (hexByteStr b) \<longleftrightarrow> b = 0x0D)"
  by (simp add: hexByteStr_def hexPair_def hexChar_not_break nibbles)


text \<open>
  C5. The claim: some byte sequence without the bytes \<^verbatim>\<open>0a\<close> and \<^verbatim>\<open>0d\<close> gets a carriage
  return or a line feed injected, because the replacement works on the text. It cannot
  happen: the text has a space behind every two digits, so the patterns \<^verbatim>\<open>0a\<close> and \<^verbatim>\<open>0d\<close>
  cannot lie across two bytes, and the carriage return that the first replacement
  inserts is no part of the second pattern.
\<close>

theorem hex_misfire_counterexample:
  "\<not> (\<exists>data. 0x0A \<notin> set data \<and> 0x0D \<notin> set data \<and>
        (CR \<in> set (hexadecimalStr data) \<or> LF \<in> set (hexadecimalStr data)))"
  by (auto simp: hexadecimalStr_bytes breaks_iff)

text \<open>
  C5, amended. The replacement follows the byte values: the display string is, byte by
  byte, the two digits, a carriage return exactly behind a byte \<^verbatim>\<open>0a\<close>, a line feed
  exactly behind a byte \<^verbatim>\<open>0d\<close>, and a space. So it holds a carriage return only if the
  data hold the byte \<^verbatim>\<open>0a\<close>, and a line feed only if they hold the byte \<^verbatim>\<open>0d\<close>.
\<close>

theorem hex_breaks_follow_bytes:
  "hexadecimalStr data = concat (map hexByteStr data) \<and>
   (CR \<in> set (hexadecimalStr data) \<longleftrightarrow> 0x0A \<in> set data) \<and>
   (LF \<in> set (hexadecimalStr data) \<longleftrightarrow> 0x0D \<in> set data)"
  by (auto simp: hexadecimalStr_bytes breaks_iff)

subsection \<open>Reading hexadecimal text\<close>

lemma replace_space: "QString_replace [SPACE] [] str = stripSpaces str"
  by (induction str) (simp_all add: stripSpaces_def)

lemma hexDigit_props:
  assumes "isHexDigit x"
  shows "\<not> isSpace x" "x \<noteq> 0x2D" "x \<noteq> 0x2212" "x \<noteq> 0x2B"
  using assms by (auto simp: isHexDigit_def hexValue_def isSpace_def Let_def split: if_splits)

lemma hexValue_less: "hexValue x = Some v \<Longrightarrow> v < 16"
  by (auto simp: hexValue_def Let_def split: if_splits)

lemma toInt16_pair:
  assumes "isHexDigit x" "isHexDigit y"
  shows "toInt16 [x, y] =
     int (16 * (case hexValue x of Some v \<Rightarrow> v | None \<Rightarrow> 0) +
          (case hexValue y of Some v \<Rightarrow> v | None \<Rightarrow> 0))"
proof -
  obtain a b where ab: "hexValue x = Some a" "hexValue y = Some b"
    using assms by (auto simp: isHexDigit_def)
  have "a < 16" "b < 16" using ab by (auto dest: hexValue_less)
  then show ?thesis
    using assms ab hexDigit_props [OF assms(1)] hexDigit_props [OF assms(2)]
    by (simp add: toInt16_def hexNumber_def Let_def)
qed

lemma hexToBytes_loop_even:
  "even (length str) \<Longrightarrow>
   \<exists>bytes. hexToBytes_loop str = Some bytes \<and> length bytes = length str div 2"
  by (induction str rule: hexToBytes_loop.induct) auto

lemma hexToBytes_loop_wellformed:
  "even (length str) \<Longrightarrow> list_all isHexDigit str \<Longrightarrow> hexToBytes_loop str = Some (hexPairs str)"
  by (induction str rule: hexToBytes_loop.induct) (auto simp: toInt16_pair)

text \<open>
  C3. The claim: \<^verbatim>\<open>hexToBytes\<close> fails with an error, and produces no bytes, when a group
  of two characters is not hexadecimal. The function has no error to report: for the
  input \<^verbatim>\<open>zz\<close> \<^verbatim>\<open>toInt\<close> fails, its result 0 is appended, and the caller gets one byte.
\<close>

theorem hexToBytes_malformed_counterexample:
  "hexToBytes (qs ''zz'') = Some [0x00]"
  by (simp add: hexToBytes_def qs_def toInt16_def isSpace_def isHexDigit_def hexValue_def
      hexNumber_def)

text \<open>
  C3, amended. \<^verbatim>\<open>hexToBytes\<close> reports no malformed input. When the input without its
  spaces has an even number of characters, it returns one byte for every group of two
  characters, whatever the characters are; when moreover all of them are hexadecimal
  digits, the bytes are those of the consecutive groups.
\<close>

theorem hexToBytes_no_error:
  "(even (length (stripSpaces str)) \<longrightarrow>
      (\<exists>bytes. hexToBytes str = Some bytes \<and> length bytes = length (stripSpaces str) div 2)) \<and>
   (even (length (stripSpaces str)) \<and> list_all isHexDigit (stripSpaces str) \<longrightarrow>
      hexToBytes str = Some (hexPairs (stripSpaces str)))"
  by (simp add: hexToBytes_def replace_space hexToBytes_loop_even hexToBytes_loop_wellformed)

text \<open>
  C3, witness: the well-formed input \<^verbatim>\<open>68 65 6c 6c 6f\<close> gives the five bytes of \<^verbatim>\<open>hello\<close>.
\<close>

theorem hexToBytes_no_error_witness:
  "even (length (stripSpaces (qs ''68 65 6c 6c 6f''))) \<and>
   list_all isHexDigit (stripSpaces (qs ''68 65 6c 6c 6f'')) \<and>
   hexToBytes (qs ''68 65 6c 6c 6f'') = Some [0x68, 0x65, 0x6C, 0x6C, 0x6F] \<and>
   (\<exists>bytes. hexToBytes (qs ''68 65 6c 6c 6f'') = Some bytes \<and> length bytes = 5)"
  using hexToBytes_no_error [of "qs ''68 65 6c 6c 6f''"]
  by (simp add: qs_def stripSpaces_def isHexDigit_def hexValue_def)

subsection \<open>The hexadecimal display loses nothing\<close>

lemma hexDigits_append: "hexDigits (xs @ ys) = hexDigits xs @ hexDigits ys"
  by (simp add: hexDigits_def)

lemma hexDigits_hexByteStr: "hexDigits (hexByteStr b) = hexPair b"
  by (simp add: hexDigits_def hexByteStr_def hexPair_def hexChar_not_break nibbles)

lemma hexDigits_bytes: "hexDigits (concat (map hexByteStr data)) = concat (map hexPair data)"
  by (induction data) (simp_all add: hexDigits_append hexDigits_hexByteStr, simp add: hexDigits_def)

lemma hexPairs_bytes: "hexPairs (concat (map hexPair data)) = data"
proof (induction data)
  case Nil
  then show ?case by simp
next
  case (Cons b data)
  have "(of_nat (16 * (unat b div 16) + unat b mod 16) :: 8 word) = b"
    by simp
  then show ?case using Cons
    by (simp add: hexPair_def hexValue_hexChar nibbles)
qed

lemma isHexDigit_bytes: "list_all isHexDigit (concat (map hexPair data))"
  by (induction data) (simp_all add: hexPair_def isHexDigit_hexChar nibbles)

lemma even_length_bytes: "even (length (concat (map hexPair data)))"
  by (induction data) (simp_all add: hexPair_def)

lemma strip_breaks:
  "stripSpaces (filter (\<lambda>c. c \<noteq> CR \<and> c \<noteq> LF) str) = hexDigits str"
  by (induction str) (auto simp: stripSpaces_def hexDigits_def)

text \<open>
  C4. For every byte sequence, the display string of \<^verbatim>\<open>hexadecimalStr\<close> without its
  spaces, carriage returns and line feeds consists of hexadecimal digits, and these,
  read two by two, are the bytes again. The console's own \<^verbatim>\<open>hexToBytes\<close>, which removes
  the spaces itself, reads the bytes back as well.
\<close>

theorem hex_dump_lossless:
  "list_all isHexDigit (hexDigits (hexadecimalStr data)) \<and>
   hexPairs (hexDigits (hexadecimalStr data)) = data \<and>
   hexToBytes (filter (\<lambda>c. c \<noteq> CR \<and> c \<noteq> LF) (hexadecimalStr data)) = Some data"
proof -
  have d: "hexDigits (hexadecimalStr data) = concat (map hexPair data)"
    by (simp add: hexadecimalStr_bytes hexDigits_bytes)
  have "hexToBytes (filter (\<lambda>c. c \<noteq> CR \<and> c \<noteq> LF) (hexadecimalStr data)) =
        hexToBytes_loop (concat (map hexPair data))"
    by (simp add: hexToBytes_def replace_space strip_breaks d)
  also have "\<dots> = Some (hexPairs (concat (map hexPair data)))"
    by (rule hexToBytes_loop_wellformed [OF even_length_bytes isHexDigit_bytes])
  finally show ?thesis
    by (simp add: d hexPairs_bytes isHexDigit_bytes)
qed


section \<open>Properties of the line buffer\<close>

lemmas console_defs = Console_append_def newConsole_def clear_def emit_def lineCount_def
  append_step_def emitLines_def qs_def Let_def

subsection \<open>Scenarios\<close>

text \<open>
  C6. The claim: \<^verbatim>\<open>append("hello\nworld", true)\<close> on the empty buffer with the timestamp
  \<^verbatim>\<open>T -> \<close> leaves the open line \<^verbatim>\<open>world\<close> without a timestamp. The loop stamps a
  line when it meets the line's first character, so the open line is stamped already.
\<close>

theorem append_hello_world_counterexample:
  "m_lines (Console_append (qs ''T -> '') (qs ''hello'' @ [LF] @ qs ''world'') True newConsole)
     \<noteq> [qs ''T -> hello'', qs ''world'']"
  by (simp add: console_defs)

text \<open>
  C6, amended. On an empty buffer whose flag is clear, \<^verbatim>\<open>append("hello\nworld", true)\<close>
  with the timestamp \<^verbatim>\<open>T -> \<close> produces exactly two lines, the closed line
  \<^verbatim>\<open>T -> hello\<close> and the open line \<^verbatim>\<open>T -> world\<close>, which has its timestamp already (the
  flag is set); it emits \<^verbatim>\<open>lineReceived\<close> once, with \<^verbatim>\<open>T -> hello\<close>, and then
  \<^verbatim>\<open>dataReceived\<close>.
\<close>

theorem append_hello_world:
  "m_lines s = [] \<Longrightarrow> \<not> m_timestampAdded s \<Longrightarrow>
   (let s' = Console_append (qs ''T -> '') (qs ''hello'' @ [LF] @ qs ''world'') True s in
    m_lines s' = [qs ''T -> hello'', qs ''T -> world''] \<and>
    m_timestampAdded s' \<and>
    emitted s' = emitted s @ [lineReceived (qs ''T -> hello''), dataReceived])"
  by (simp add: console_defs)

text \<open>C6, witness: the console as constructed.\<close>

theorem append_hello_world_witness:
  "m_lines newConsole = [] \<and> \<not> m_timestampAdded newConsole \<and>
   m_lines (Console_append (qs ''T -> '') (qs ''hello'' @ [LF] @ qs ''world'') True newConsole) =
     [qs ''T -> hello'', qs ''T -> world''] \<and>
   emitted (Console_append (qs ''T -> '') (qs ''hello'' @ [LF] @ qs ''world'') True newConsole) =
     emitted newConsole @ [lineReceived (qs ''T -> hello''), dataReceived]"
proof -
  have h: "m_lines newConsole = []" "\<not> m_timestampAdded newConsole"
    by (simp_all add: newConsole_def clear_def emit_def)
  show ?thesis
    using h append_hello_world [OF h] by (simp add: Let_def)
qed

text \<open>
  C7. The claim: after \<^verbatim>\<open>clear()\<close> the first \<^verbatim>\<open>append\<close> with a timestamp stamps the first
  line it opens, from every state. \<^verbatim>\<open>clear()\<close> empties the lines and leaves
  \<^verbatim>\<open>m_timestampAdded\<close> as it is: after \<^verbatim>\<open>append("ab", true)\<close> the flag is set, after
  \<^verbatim>\<open>clear()\<close> it is still set although no line is left, and \<^verbatim>\<open>append("x", true)\<close> then
  opens the line \<^verbatim>\<open>x\<close> without a timestamp.
\<close>

theorem clear_keeps_flag:
  "(let s = clear (Console_append (qs ''T -> '') (qs ''ab'') True newConsole) in
    m_lines s = [] \<and> m_timestampAdded s \<and>
    m_lines (Console_append (qs ''T -> '') (qs ''x'') True s) = [qs ''x''])"
  by (simp add: console_defs)

lemma plainTextStr_abc: "plainTextStr [0x61, 0x62, 0x63, 0x0A] = [0x61, 0x62, 0x63, 0x0A]"
  by (simp add: plainTextStr_def fromUtf8_def untilNul_def skipBom_def utf16_def encodeUtf8_def)

text \<open>
  C9. From an empty buffer, with the plain-text display and timestamps off, two calls of
  \<^verbatim>\<open>onDataReceived\<close> with \<^verbatim>\<open>ab\<close> and \<^verbatim>\<open>c\n\<close> and one \<^verbatim>\<open>displayData()\<close> produce the closed
  line \<^verbatim>\<open>abc\<close> and the empty line that is open behind it, emit \<^verbatim>\<open>lineReceived\<close> once, with
  \<^verbatim>\<open>abc\<close>, and leave the staging buffer empty.
\<close>

theorem staged_bytes_one_line:
  "m_lines s = [] \<Longrightarrow> m_dataBuffer s = [] \<Longrightarrow> m_displayMode s = DisplayPlainText \<Longrightarrow>
   \<not> m_showTimestamp s \<Longrightarrow>
   (let s' = displayData now (onDataReceived [0x63, 0x0A] (onDataReceived [0x61, 0x62] s)) in
    m_lines s' = [qs ''abc'', []] \<and> m_dataBuffer s' = [] \<and>
    emitted s' = emitted s @ [lineReceived (qs ''abc''), dataReceived])"
  by (cases "m_timestampAdded s")
    (simp_all add: console_defs displayData_def onDataReceived_def dataToString_def
      plainTextStr_abc)

text \<open>C9, witness: the console as constructed, with timestamps switched off.\<close>

theorem staged_bytes_one_line_witness:
  "m_lines (setShowTimestamp False newConsole) = [] \<and>
   m_dataBuffer (setShowTimestamp False newConsole) = [] \<and>
   m_displayMode (setShowTimestamp False newConsole) = DisplayPlainText \<and>
   \<not> m_showTimestamp (setShowTimestamp False newConsole) \<and>
   m_lines (displayData (qs ''12:00:00.000 -> '')
      (onDataReceived [0x63, 0x0A] (onDataReceived [0x61, 0x62] (setShowTimestamp False newConsole)))) =
     [qs ''abc'', []] \<and>
   m_dataBuffer (displayData (qs ''12:00:00.000 -> '')
      (onDataReceived [0x63, 0x0A] (onDataReceived [0x61, 0x62] (setShowTimestamp False newConsole)))) =
     []"
proof -
  have h: "m_lines (setShowTimestamp False newConsole) = []"
    "m_dataBuffer (setShowTimestamp False newConsole) = []"
    "m_displayMode (setShowTimestamp False newConsole) = DisplayPlainText"
    "\<not> m_showTimestamp (setShowTimestamp False newConsole)"
    by (simp_all add: setShowTimestamp_def newConsole_def clear_def emit_def)
  show ?thesis
    using h staged_bytes_one_line [OF h, of "qs ''12:00:00.000 -> ''"] by (simp add: Let_def)
qed

text \<open>
  C10. A flush with nothing staged changes nothing: when the staging buffer is empty,
  \<^verbatim>\<open>displayData()\<close> returns the state it was given, in either display mode. Lines,
  flag, configuration and the signals emitted so far are all as before.
\<close>

theorem idle_flush_noop:
  "m_dataBuffer s = [] \<Longrightarrow> displayData now s = s"
  by (cases "m_displayMode s")
    (simp_all add: displayData_def dataToString_def plainTextStr_def hexadecimalStr_def
      fromUtf8_def untilNul_def skipBom_def toHex_def Console_append_def qs_def)

text \<open>C10, witness: the console as constructed, in the plain-text and in the hexadecimal display.\<close>

theorem idle_flush_noop_witness:
  "m_dataBuffer newConsole = [] \<and>
   displayData (qs ''12:00:00.000 -> '') newConsole = newConsole \<and>
   m_dataBuffer (setDisplayMode DisplayHexadecimal newConsole) = [] \<and>
   displayData (qs ''12:00:00.000 -> '') (setDisplayMode DisplayHexadecimal newConsole) =
     setDisplayMode DisplayHexadecimal newConsole"
proof -
  have h: "m_dataBuffer newConsole = []"
    "m_dataBuffer (setDisplayMode DisplayHexadecimal newConsole) = []"
    by (simp_all add: setDisplayMode_def newConsole_def clear_def emit_def)
  show ?thesis
    using h idle_flush_noop [OF h(1)] idle_flush_noop [OF h(2)] by simp
qed


subsection \<open>One timestamp per line\<close>











lemma Console_append_lines:
  "string \<noteq> [] \<Longrightarrow>
   m_lines (Console_append now string a s) =
     m_lines (append_loop (if a then now else []) (QString_replace [CR, LF] [LF] string)
        (if m_lines s = [] then s\<lparr>m_lines := [[]]\<rparr> else s)) \<and>
   m_timestampAdded (Console_append now string a s) =
     m_timestampAdded (append_loop (if a then now else []) (QString_replace [CR, LF] [LF] string)
        (if m_lines s = [] then s\<lparr>m_lines := [[]]\<rparr> else s))"
  by (simp add: Console_append_def Let_def emit_def emitLines_def lineCount_def)



lemma addToHistory_fields:
  "m_lines (addToHistory data s) = m_lines s"
  "m_timestampAdded (addToHistory data s) = m_timestampAdded s"
  "m_dataMode (addToHistory data s) = m_dataMode s"
  "m_lineEnding (addToHistory data s) = m_lineEnding s"
  "m_displayMode (addToHistory data s) = m_displayMode s"
  "m_echo (addToHistory data s) = m_echo s"
  "m_showTimestamp (addToHistory data s) = m_showTimestamp s"
  by (simp_all add: addToHistory_def emit_def Let_def del: removeOld.simps)

lemma dataToString_addToHistory: "dataToString (addToHistory data s) bin = dataToString s bin"
  by (simp add: dataToString_def addToHistory_fields)

text \<open>
  What \<^verbatim>\<open>send\<close> does to the lines: nothing, or the \<^verbatim>\<open>append\<close> of the echoed text followed by
  the reset of the flag.
\<close>

lemma send_cases:
  assumes "send connected writeData now data s = Some s'"
  shows "(echoText connected writeData data s = None \<and>
            m_lines s' = m_lines s \<and> m_timestampAdded s' = m_timestampAdded s) \<or>
         (\<exists>echoed. echoText connected writeData data s = Some echoed \<and>
            s' = (Console_append now echoed (m_showTimestamp s) (addToHistory data s))
                   \<lparr>m_timestampAdded := False\<rparr>)"
proof (cases "data = [] \<or> \<not> connected")
  case True
  then show ?thesis using assms by (auto simp: send_def echoText_def)
next
  case False
  show ?thesis
  proof (cases "if m_dataMode s = DataHexadecimal then hexToBytes data else Some (toUtf8 data)")
    case None
    then show ?thesis using assms False
      by (simp add: send_def Let_def addToHistory_fields)
  next
    case (Some bin0)
    show ?thesis
    proof (cases "writeData (bin0 @ eolBytes (m_lineEnding s)) > 0 \<and> m_echo s")
      case True
      then show ?thesis using assms False Some
        by (simp add: send_def echoText_def Let_def addToHistory_fields dataToString_addToHistory)
    next
      case no_echo: False
      then have "s' = addToHistory data s" using assms False Some
        by (auto simp: send_def Let_def addToHistory_fields split: if_splits)
      then show ?thesis using no_echo False Some
        by (auto simp: echoText_def Let_def addToHistory_fields)
    qed
  qed
qed



lemma append_step_lines: "m_lines s \<noteq> [] \<Longrightarrow> m_lines (append_step ts c s) \<noteq> []"
  by (auto simp: append_step_def Let_def lineCount_def)

lemma append_step_not_open: "m_lines s \<noteq> [] \<Longrightarrow> \<not> openText (append_step ts c s)"
  by (auto simp: append_step_def Let_def openText_def)

lemma append_loop_lines: "m_lines s \<noteq> [] \<Longrightarrow> m_lines (append_loop ts data s) \<noteq> []"
  by (induction data arbitrary: s) (simp_all add: append_step_lines)

lemma append_loop_not_open:
  "m_lines s \<noteq> [] \<Longrightarrow> \<not> openText s \<Longrightarrow> \<not> openText (append_loop ts data s)"
proof (induction data arbitrary: s)
  case Nil
  then show ?case by simp
next
  case (Cons c data)
  from Cons.IH [OF append_step_lines [OF Cons.prems(1)] append_step_not_open [OF Cons.prems(1)]]
  show ?case by simp
qed

lemma append_loop_snoc:
  "append_loop ts (xs @ [c]) s = append_step ts c (append_loop ts xs s)"
  by (induction xs arbitrary: s) simp_all

lemma append_loop_endsLine:
  assumes "endsLine data"
  shows "\<not> m_timestampAdded (append_loop ts data s) \<and> last (m_lines (append_loop ts data s)) = []"
proof -
  from assms have d: "data = butlast data @ [last data]" and nl: "last data = LF \<or> last data = CR"
    by (simp_all add: endsLine_def)
  have "append_loop ts data s = append_step ts (last data) (append_loop ts (butlast data) s)"
    by (subst d) (rule append_loop_snoc)
  then show ?thesis using nl by (auto simp: append_step_def Let_def)
qed

lemma openText_cong:
  "m_lines s' = m_lines s \<Longrightarrow> m_timestampAdded s' = m_timestampAdded s \<Longrightarrow>
   openText s' = openText s"
  by (simp add: openText_def)

lemma Console_append_not_open: "\<not> openText s \<Longrightarrow> \<not> openText (Console_append now string a s)"
proof (cases "string = []")
  case True
  assume "\<not> openText s"
  then show ?thesis using True by (simp add: Console_append_def)
next
  case False
  assume no: "\<not> openText s"
  let ?s1 = "if m_lines s = [] then s\<lparr>m_lines := [[]]\<rparr> else s"
  have "m_lines ?s1 \<noteq> []" by simp
  moreover have "\<not> openText ?s1" using no by (auto simp: openText_def)
  ultimately have "\<not> openText (append_loop (if a then now else [])
      (QString_replace [CR, LF] [LF] string) ?s1)"
    by (rule append_loop_not_open)
  moreover have "openText (Console_append now string a s) =
      openText (append_loop (if a then now else []) (QString_replace [CR, LF] [LF] string) ?s1)"
    using Console_append_lines [OF False, of now a s] by (intro openText_cong) simp_all
  ultimately show ?thesis by simp
qed

lemma Console_append_endsLine:
  assumes "endsLine (QString_replace [CR, LF] [LF] string)"
  shows "\<not> openText ((Console_append now string a s)\<lparr>m_timestampAdded := False\<rparr>)"
proof -
  from assms have ne: "string \<noteq> []" by (auto simp: endsLine_def)
  from append_loop_endsLine [OF assms] Console_append_lines [OF ne, of now a s]
  have "last (m_lines (Console_append now string a s)) = []" by simp
  then show ?thesis by (simp add: openText_def)
qed

text \<open>
  Calls that never put a timestamp behind text: every \<^verbatim>\<open>append\<close>, every \<^verbatim>\<open>send\<close> that does
  not echo (nothing to send, no connection, a failed write, echo off), and every echo
  whose text ends in a line break.
\<close>

lemma perform_not_open:
  assumes "\<not> openText s" "closedCall c s" "perform c s = Some s'"
  shows "\<not> openText s'"
proof (cases c)
  case (Append now string a)
  then show ?thesis using assms(1,3) Console_append_not_open [OF assms(1)] by auto
next
  case (Send connected writeData now data)
  with assms(3) have snd: "send connected writeData now data s = Some s'" by simp
  from send_cases [OF snd] show ?thesis
  proof
    assume "echoText connected writeData data s = None \<and>
      m_lines s' = m_lines s \<and> m_timestampAdded s' = m_timestampAdded s"
    then show ?thesis using assms(1) openText_cong [of s' s] by simp
  next
    assume "\<exists>echoed. echoText connected writeData data s = Some echoed \<and>
      s' = (Console_append now echoed (m_showTimestamp s) (addToHistory data s))
             \<lparr>m_timestampAdded := False\<rparr>"
    then obtain echoed where e: "echoText connected writeData data s = Some echoed"
      and eq: "s' = (Console_append now echoed (m_showTimestamp s) (addToHistory data s))
                      \<lparr>m_timestampAdded := False\<rparr>" by blast
    from assms(2) e have "endsLine (QString_replace [CR, LF] [LF] echoed)" by (simp add: Send)
    then show ?thesis unfolding eq by (rule Console_append_endsLine)
  qed
qed

lemma closedCalls_stampsAtStart:
  "\<not> openText s \<Longrightarrow> closedCalls s cs \<Longrightarrow> stampsAtStart s cs"
proof (induction cs arbitrary: s)
  case Nil
  then show ?case by simp
next
  case (Cons c cs)
  have no: "\<not> stampsMidLine c s" using Cons.prems(1) by (simp add: stampsMidLine_def)
  show ?case
  proof (cases "perform c s")
    case None
    then show ?thesis using no by simp
  next
    case (Some s1)
    from Cons.prems(2) Some have cc: "closedCall c s" and rest: "closedCalls s1 cs" by simp_all
    from perform_not_open [OF Cons.prems(1) cc Some] have "\<not> openText s1" .
    from Cons.IH [OF this rest] show ?thesis using no Some by simp
  qed
qed




section \<open>Properties of the plain-text codec\<close>

lemma enc1: "x < 0x80 \<Longrightarrow> encodeUtf8 x = [of_nat x]"
  by (simp add: encodeUtf8_def)

lemma enc2:
  "2 \<le> x \<Longrightarrow> x < 32 \<Longrightarrow> y < 64 \<Longrightarrow>
   encodeUtf8 (x * 64 + y) = [of_nat (0xC0 + x), of_nat (0x80 + y)]"
  by (simp add: encodeUtf8_def)

lemma enc3:
  "x < 16 \<Longrightarrow> y < 64 \<Longrightarrow> z < 64 \<Longrightarrow> 0x800 \<le> x * 4096 + y * 64 + z \<Longrightarrow>
   encodeUtf8 (x * 4096 + y * 64 + z) = [of_nat (0xE0 + x), of_nat (0x80 + y), of_nat (0x80 + z)]"
proof -
  assume a: "x < 16" "y < 64" "z < 64" "0x800 \<le> x * 4096 + y * 64 + z"
  have d1: "(x * 4096 + y * 64 + z) div 4096 = x" using a by simp
  have "(x * 4096 + y * 64 + z) div 64 = x * 64 + y" using a by simp
  then have d2: "(x * 4096 + y * 64 + z) div 64 mod 64 = y" using a by simp
  have d3: "(x * 4096 + y * 64 + z) mod 64 = z" using a by (simp add: mod_add_left_eq [symmetric] mod_mult_right_eq)
  have lt: "x * 4096 + y * 64 + z < 0x10000" using a by simp
  show ?thesis
    unfolding encodeUtf8_def using a(4) lt d1 d2 d3 by simp
qed


lemma enc4:
  assumes "x < 8" "y < 64" "z < 64" "w < 64" "0x10000 \<le> x * 262144 + y * 4096 + z * 64 + w"
  shows "encodeUtf8 (x * 262144 + y * 4096 + z * 64 + w) =
     [of_nat (0xF0 + x), of_nat (0x80 + y), of_nat (0x80 + z), of_nat (0x80 + w)]"
proof -
  let ?cp = "x * 262144 + y * 4096 + z * 64 + w"
  have d1: "?cp div 262144 = x" using assms by simp
  have "?cp div 4096 = x * 64 + y" using assms by simp
  then have d2: "?cp div 4096 mod 64 = y" using assms by simp
  have "?cp div 64 = x * 4096 + y * 64 + z" using assms by simp
  moreover have "(x * 4096 + y * 64 + z) mod 64 = z"
    using assms by (simp add: mod_add_left_eq [symmetric] mod_mult_right_eq)
  ultimately have d3: "?cp div 64 mod 64 = z" by simp
  have d4: "?cp mod 64 = w" using assms by (simp add: mod_add_left_eq [symmetric] mod_mult_right_eq)
  show ?thesis
    unfolding encodeUtf8_def using assms(5) d1 d2 d3 d4 by simp
qed

lemma unat16: "n < 65536 \<Longrightarrow> unat (of_nat n :: 16 word) = n"
  by (simp add: unat_of_nat)

lemma toUtf8_utf16: 
  assumes "scalar cp"
  shows "toUtf8 (utf16 cp @ us) = encodeUtf8 cp @ toUtf8 us"
proof (cases "cp < 0x10000")
  case True
  then show ?thesis using assms by (auto simp: utf16_def scalar_def unat16 Let_def)
next
  case False
  define v where "v = cp - 0x10000"
  have v: "v < 1048576" "cp = 0x10000 + v" using False assms by (auto simp: v_def scalar_def)
  define h :: "16 word" where "h = of_nat (0xD800 + v div 1024)"
  define l :: "16 word" where "l = of_nat (0xDC00 + v mod 1024)"
  have uh: "unat h = 0xD800 + v div 1024"
    unfolding h_def using v by (intro unat16) simp
  have ul: "unat l = 0xDC00 + v mod 1024"
    unfolding l_def by (intro unat16) simp
  have small: "v div 1024 < 1024" "v mod 1024 < 1024" using v by simp_all
  have "utf16 cp = [h, l]"
    using False by (simp add: utf16_def h_def l_def v_def)
  moreover have "toUtf8 ([h, l] @ us) =
      encodeUtf8 (0x10000 + (unat h - 0xD800) * 1024 + (unat l - 0xDC00)) @ toUtf8 us"
    using small by (simp add: uh ul Let_def)
  moreover have "0x10000 + (unat h - 0xD800) * 1024 + (unat l - 0xDC00) = cp"
    by (simp add: uh ul v(2))
  ultimately show ?thesis by simp
qed


lemma isCont_nat: "isCont w \<longleftrightarrow> 0x80 \<le> unat w \<and> unat w \<le> 0xBF"
  by (simp add: isCont_def word_le_nat_alt)

lemma low6_cont: "isCont w \<Longrightarrow> low6 w = unat w - 0x80 \<and> low6 w < 64"
proof -
  assume c: "isCont w"
  define y where "y = unat w - 0x80"
  have y: "unat w = y + 64 * 2" "y < 64"
    using c by (auto simp: y_def isCont_nat)
  have "unat w mod 64 = (y + 64 * 2) mod 64" by (simp only: y(1))
  also have "\<dots> = y mod 64" by (rule mod_mult_self2)
  also have "\<dots> = y" using y(2) by (rule mod_less)
  finally have m: "unat w mod 64 = y" .
  show ?thesis
    unfolding low6_def m using y(2) by (simp add: y_def)
qed

lemma secondOk_nat:
  "secondOk lead b1 \<longleftrightarrow>
     (if unat lead = 0xE0 then 0xA0 \<le> unat b1 \<and> unat b1 \<le> 0xBF
      else if unat lead = 0xED then 0x80 \<le> unat b1 \<and> unat b1 \<le> 0x9F
      else if unat lead = 0xF0 then 0x90 \<le> unat b1 \<and> unat b1 \<le> 0xBF
      else if unat lead = 0xF4 then 0x80 \<le> unat b1 \<and> unat b1 \<le> 0x8F
      else 0x80 \<le> unat b1 \<and> unat b1 \<le> 0xBF)"
  by (simp add: secondOk_def isCont_nat word_le_nat_alt word_unat_eq_iff [of lead])

lemma secondOk_cont: "secondOk lead b1 \<Longrightarrow> isCont b1"
  by (auto simp: secondOk_nat isCont_nat split: if_splits)

lemma decode_one:
  assumes "unat b < 0x80"
  shows "decodeUtf8 (b # bs) = Some (unat b, 1) \<and> scalar (unat b) \<and> encodeUtf8 (unat b) = [b]"
  using assms by (simp add: scalar_def enc1)

lemma decode_two:
  assumes "0xC2 \<le> unat b" "unat b \<le> 0xDF" "isCont b1"
  shows "\<exists>cp. decodeUtf8 (b # b1 # r) = Some (cp, 2) \<and> scalar cp \<and> encodeUtf8 cp = [b, b1]"
proof -
  define x where "x = unat b - 0xC0"
  define y where "y = low6 b1"
  have x: "2 \<le> x" "x < 32" "0xC0 + x = unat b" using assms by (simp_all add: x_def)
  have y: "y < 64" "0x80 + y = unat b1"
    using low6_cont [OF assms(3)] assms(3) by (simp_all add: y_def isCont_nat)
  have "decodeUtf8 (b # b1 # r) = Some (x * 64 + y, 2)"
    using assms by (simp add: x_def y_def)
  moreover have "scalar (x * 64 + y)" using x y by (simp add: scalar_def)
  moreover have "encodeUtf8 (x * 64 + y) = [b, b1]"
    using enc2 [OF x(1,2) y(1)] by (simp only: x(3) y(2) of_nat_unat ucast_id)
  ultimately show ?thesis by blast
qed


lemma decode_three:
  assumes "0xE0 \<le> unat b" "unat b \<le> 0xEF" "secondOk b b1" "isCont b2"
  shows "\<exists>cp. decodeUtf8 (b # b1 # b2 # r) = Some (cp, 3) \<and> scalar cp \<and>
     encodeUtf8 cp = [b, b1, b2]"
proof -
  define x where "x = unat b - 0xE0"
  define y where "y = low6 b1"
  define z where "z = low6 b2"
  have c1: "isCont b1" using assms(3) by (rule secondOk_cont)
  have x: "x < 16" "0xE0 + x = unat b" using assms by (simp_all add: x_def)
  have y: "y < 64" "0x80 + y = unat b1"
    using low6_cont [OF c1] c1 by (simp_all add: y_def isCont_nat)
  have z: "z < 64" "0x80 + z = unat b2"
    using low6_cont [OF assms(4)] assms(4) by (simp_all add: z_def isCont_nat)
  have y0: "x = 0 \<Longrightarrow> 32 \<le> y" and y13: "x = 13 \<Longrightarrow> y < 32"
    using assms(3) x(2) y(2) by (auto simp: secondOk_nat split: if_splits)
  have lo: "0x800 \<le> x * 4096 + y * 64 + z"
    using y0 by (cases "x = 0") auto
  have sur: "\<not> (0xD800 \<le> x * 4096 + y * 64 + z \<and> x * 4096 + y * 64 + z < 0xE000)"
  proof -
    consider "x \<le> 12" | "x = 13" | "14 \<le> x" by arith
    then show ?thesis
    proof cases
      case 1 then show ?thesis using y(1) z(1) by auto
    next
      case 2 then show ?thesis using y13 z(1) by auto
    next
      case 3 then show ?thesis by auto
    qed
  qed
  have "decodeUtf8 (b # b1 # b2 # r) = Some (x * 4096 + y * 64 + z, 3)"
    using assms(1,2,4) c1 lo sur unfolding x_def y_def z_def by (simp add: Let_def)
  moreover have "scalar (x * 4096 + y * 64 + z)"
    using sur x(1) y(1) z(1) by (simp add: scalar_def)
  moreover have "encodeUtf8 (x * 4096 + y * 64 + z) = [b, b1, b2]"
    using enc3 [OF x(1) y(1) z(1) lo] by (simp only: x(2) y(2) z(2) of_nat_unat ucast_id)
  ultimately show ?thesis by blast
qed

lemma decode_four:
  assumes "0xF0 \<le> unat b" "unat b \<le> 0xF4" "secondOk b b1" "isCont b2" "isCont b3"
  shows "\<exists>cp. decodeUtf8 (b # b1 # b2 # b3 # r) = Some (cp, 4) \<and> scalar cp \<and>
     encodeUtf8 cp = [b, b1, b2, b3]"
proof -
  define x where "x = unat b - 0xF0"
  define y where "y = low6 b1"
  define z where "z = low6 b2"
  define w where "w = low6 b3"
  have c1: "isCont b1" using assms(3) by (rule secondOk_cont)
  have x: "x < 8" "x \<le> 4" "0xF0 + x = unat b" using assms by (simp_all add: x_def)
  have y: "y < 64" "0x80 + y = unat b1"
    using low6_cont [OF c1] c1 by (simp_all add: y_def isCont_nat)
  have z: "z < 64" "0x80 + z = unat b2"
    using low6_cont [OF assms(4)] assms(4) by (simp_all add: z_def isCont_nat)
  have w: "w < 64" "0x80 + w = unat b3"
    using low6_cont [OF assms(5)] assms(5) by (simp_all add: w_def isCont_nat)
  have y0: "x = 0 \<Longrightarrow> 16 \<le> y" and y4: "x = 4 \<Longrightarrow> y < 16"
    using assms(3) x(3) y(2) by (auto simp: secondOk_nat split: if_splits)
  have lo: "0x10000 \<le> x * 262144 + y * 4096 + z * 64 + w"
    using y0 by (cases "x = 0") auto
  have hi: "x * 262144 + y * 4096 + z * 64 + w < 0x110000"
  proof (cases "x = 4")
    case True then show ?thesis using y4 z(1) w(1) by auto
  next
    case False
    then have "x \<le> 3" using x(2) by simp
    then show ?thesis using y(1) z(1) w(1) by auto
  qed
  have "decodeUtf8 (b # b1 # b2 # b3 # r) = Some (x * 262144 + y * 4096 + z * 64 + w, 4)"
    using assms(1,2,4,5) c1 lo hi unfolding x_def y_def z_def w_def by (simp add: Let_def)
  moreover have "scalar (x * 262144 + y * 4096 + z * 64 + w)"
    using lo hi by (simp add: scalar_def)
  moreover have "encodeUtf8 (x * 262144 + y * 4096 + z * 64 + w) = [b, b1, b2, b3]"
    using enc4 [OF x(1) y(1) z(1) w(1) lo]
    by (simp only: x(3) y(2) z(2) w(2) of_nat_unat ucast_id)
  ultimately show ?thesis by blast
qed


lemma roundtrip_step:
  assumes "decodeUtf8 (b # bs) = Some (cp, k)" "scalar cp"
    and "toUtf8 (decodeAll (drop (k - 1) bs)) = drop (k - 1) bs"
  shows "toUtf8 (decodeAll (b # bs)) = encodeUtf8 cp @ drop (k - 1) bs"
  using assms by (simp add: toUtf8_utf16)

lemma utf8_roundtrip: "valid_utf8 bs \<Longrightarrow> toUtf8 (decodeAll bs) = bs"
proof (induction bs rule: valid_utf8.induct)
  case 1
  then show ?case by simp
next
  case (2 b bs)
  note valid = \<open>valid_utf8 (b # bs)\<close>
  consider (one) "b \<le> 0x7F"
    | (two) "\<not> b \<le> 0x7F" "0xC2 \<le> b \<and> b \<le> 0xDF"
    | (three) "\<not> b \<le> 0x7F" "\<not> (0xC2 \<le> b \<and> b \<le> 0xDF)" "0xE0 \<le> b \<and> b \<le> 0xEF"
    | (four) "\<not> b \<le> 0x7F" "\<not> (0xC2 \<le> b \<and> b \<le> 0xDF)" "\<not> (0xE0 \<le> b \<and> b \<le> 0xEF)"
        "0xF0 \<le> b \<and> b \<le> 0xF4"
    using valid by (auto split: if_splits)
  then show ?case
  proof cases
    case one
    then have n: "unat b < 0x80" by (simp add: word_le_nat_alt)
    from one valid have "valid_utf8 bs" by simp
    with one "2.IH"(1) have "toUtf8 (decodeAll bs) = bs" by simp
    with roundtrip_step [of b bs "unat b" 1] decode_one [OF n, of bs]
    show ?thesis by simp
  next
    case two
    with valid obtain b1 r where bs: "bs = b1 # r" and c: "isCont b1" and v: "valid_utf8 r"
      by (auto split: list.splits)
    from two have n: "0xC2 \<le> unat b" "unat b \<le> 0xDF" by (simp_all add: word_le_nat_alt)
    from decode_two [OF n c, of r] obtain cp where
      d: "decodeUtf8 (b # b1 # r) = Some (cp, 2)" "scalar cp" "encodeUtf8 cp = [b, b1]" by blast
    have "toUtf8 (decodeAll r) = r" using "2.IH"(2) [OF two bs] v by simp
    with roundtrip_step [OF d(1,2) [unfolded bs [symmetric]]] d(3) bs
    show ?thesis by simp
  next
    case three
    with valid obtain b1 b2 r where bs: "bs = b1 # b2 # r"
      and c: "secondOk b b1" "isCont b2" and v: "valid_utf8 r"
      by (auto split: list.splits)
    from three have n: "0xE0 \<le> unat b" "unat b \<le> 0xEF" by (simp_all add: word_le_nat_alt)
    from decode_three [OF n c, of r] obtain cp where
      d: "decodeUtf8 (b # b1 # b2 # r) = Some (cp, 3)" "scalar cp" "encodeUtf8 cp = [b, b1, b2]"
      by blast
    have "toUtf8 (decodeAll r) = r" using "2.IH"(3) [OF three bs refl] v by simp
    with roundtrip_step [of b bs cp 3] d bs
    show ?thesis by simp
  next
    case four
    with valid obtain b1 b2 b3 r where bs: "bs = b1 # b2 # b3 # r"
      and c: "secondOk b b1" "isCont b2" "isCont b3" and v: "valid_utf8 r"
      by (auto split: list.splits)
    from four have n: "0xF0 \<le> unat b" "unat b \<le> 0xF4" by (simp_all add: word_le_nat_alt)
    from decode_four [OF n c, of r] obtain cp where
      d: "decodeUtf8 (b # b1 # b2 # b3 # r) = Some (cp, 4)" "scalar cp"
        "encodeUtf8 cp = [b, b1, b2, b3]"
      by blast
    have "toUtf8 (decodeAll r) = r" using "2.IH"(4) [OF four bs refl refl] v by simp
    with roundtrip_step [of b bs cp 4] d bs
    show ?thesis by simp
  qed
qed

lemma nonzero_lead: "\<not> b \<le> 0x7F \<Longrightarrow> b \<noteq> 0" for b :: "8 word"
  by auto

lemma isCont_nonzero: "isCont b \<Longrightarrow> b \<noteq> 0"
  by (auto simp: isCont_def)

lemma valid_two:
  "0xC2 \<le> b \<and> b \<le> 0xDF \<Longrightarrow> isCont b1 \<Longrightarrow> valid_utf8 r \<Longrightarrow> valid_utf8 (b # b1 # r)"
  by (simp add: word_le_nat_alt)

lemma valid_three:
  "0xE0 \<le> b \<and> b \<le> 0xEF \<Longrightarrow> secondOk b b1 \<Longrightarrow> isCont b2 \<Longrightarrow> valid_utf8 r \<Longrightarrow>
   valid_utf8 (b # b1 # b2 # r)"
  by (simp add: word_le_nat_alt)

lemma valid_four:
  "0xF0 \<le> b \<and> b \<le> 0xF4 \<Longrightarrow> secondOk b b1 \<Longrightarrow> isCont b2 \<Longrightarrow> isCont b3 \<Longrightarrow>
   valid_utf8 r \<Longrightarrow> valid_utf8 (b # b1 # b2 # b3 # r)"
  by (simp add: word_le_nat_alt)

lemma valid_untilNul: "valid_utf8 data \<Longrightarrow> valid_utf8 (untilNul data)"
proof (induction data rule: valid_utf8.induct)
  case 1
  then show ?case by (simp add: untilNul_def)
next
  case (2 b bs)
  note valid = \<open>valid_utf8 (b # bs)\<close>
  consider (one) "b \<le> 0x7F"
    | (two) "\<not> b \<le> 0x7F" "0xC2 \<le> b \<and> b \<le> 0xDF"
    | (three) "\<not> b \<le> 0x7F" "\<not> (0xC2 \<le> b \<and> b \<le> 0xDF)" "0xE0 \<le> b \<and> b \<le> 0xEF"
    | (four) "\<not> b \<le> 0x7F" "\<not> (0xC2 \<le> b \<and> b \<le> 0xDF)" "\<not> (0xE0 \<le> b \<and> b \<le> 0xEF)"
        "0xF0 \<le> b \<and> b \<le> 0xF4"
    using valid by (auto split: if_splits)
  then show ?case
  proof cases
    case one
    from one valid have "valid_utf8 bs" by simp
    with one "2.IH"(1) have "valid_utf8 (untilNul bs)" by simp
    then show ?thesis using one by (simp add: untilNul_def)
  next
    case two
    with valid obtain b1 r where bs: "bs = b1 # r" and c: "isCont b1" and v: "valid_utf8 r"
      by (auto split: list.splits)
    have vr: "valid_utf8 (untilNul r)" using "2.IH"(2) [OF two bs] v by simp
    have eq: "untilNul (b # bs) = b # b1 # untilNul r"
      using nonzero_lead [OF two(1)] isCont_nonzero [OF c] by (simp add: untilNul_def bs)
    show ?thesis unfolding eq by (rule valid_two [OF two(2) c vr])
  next
    case three
    with valid obtain b1 b2 r where bs: "bs = b1 # b2 # r"
      and c: "secondOk b b1" "isCont b2" and v: "valid_utf8 r"
      by (auto split: list.splits)
    have c1: "isCont b1" using c(1) by (rule secondOk_cont)
    have vr: "valid_utf8 (untilNul r)" using "2.IH"(3) [OF three bs refl] v by simp
    have eq: "untilNul (b # bs) = b # b1 # b2 # untilNul r"
      using nonzero_lead [OF three(1)] isCont_nonzero [OF c1] isCont_nonzero [OF c(2)]
      by (simp add: untilNul_def bs)
    show ?thesis unfolding eq by (rule valid_three [OF three(3) c vr])
  next
    case four
    with valid obtain b1 b2 b3 r where bs: "bs = b1 # b2 # b3 # r"
      and c: "secondOk b b1" "isCont b2" "isCont b3" and v: "valid_utf8 r"
      by (auto split: list.splits)
    have c1: "isCont b1" using c(1) by (rule secondOk_cont)
    have vr: "valid_utf8 (untilNul r)" using "2.IH"(4) [OF four bs refl refl] v by simp
    have eq: "untilNul (b # bs) = b # b1 # b2 # b3 # untilNul r"
      using nonzero_lead [OF four(1)] isCont_nonzero [OF c1] isCont_nonzero [OF c(2)]
        isCont_nonzero [OF c(3)]
      by (simp add: untilNul_def bs)
    show ?thesis unfolding eq by (rule valid_four [OF four(4) c vr])
  qed
qed

lemma bom_prefix: "take 3 data = [0xEF, 0xBB, 0xBF] \<Longrightarrow> data = 0xEF # 0xBB # 0xBF # drop 3 data"
  by (metis append_Cons append_Nil append_take_drop_id)

lemma valid_skipBom: "valid_utf8 data \<Longrightarrow> valid_utf8 (skipBom data)"
proof (cases "take 3 data = [0xEF, 0xBB, 0xBF]")
  case True
  assume v: "valid_utf8 data"
  from bom_prefix [OF True] v have "valid_utf8 (0xEF # 0xBB # 0xBF # drop 3 data)" by simp
  then have "valid_utf8 (drop 3 data)" by (simp add: secondOk_def isCont_def)
  then show ?thesis using True by (simp add: skipBom_def)
next
  case False
  assume "valid_utf8 data"
  then show ?thesis using False by (simp add: skipBom_def)
qed

lemma fromUtf8_roundtrip:
  "valid_utf8 data \<Longrightarrow> toUtf8 (fromUtf8 data) = skipBom (untilNul data)"
  unfolding fromUtf8_def by (intro utf8_roundtrip valid_skipBom valid_untilNul)

lemma untilNul_id: "0 \<notin> set data \<Longrightarrow> untilNul data = data"
  by (auto simp: untilNul_def takeWhile_eq_all_conv)

lemma toUtf8_latin1: "toUtf8 (map ucast q) = concat (map (\<lambda>b. encodeUtf8 (unat b)) q)"
  for q :: QByteArray
proof (induction q)
  case Nil
  then show ?case by simp
next
  case (Cons b q)
  have lt: "unat b < 256" using unsigned_less [of b, where 'a = nat] by simp
  then have u: "unat (ucast b :: 16 word) = unat b"
    by (simp add: unsigned_ucast_eq take_bit_eq_mod)
  from lt have ns: "\<not> (0xD800 \<le> unat b \<and> unat b < 0xDC00)" "\<not> (0xDC00 \<le> unat b \<and> unat b < 0xE000)"
    by auto
  have "toUtf8 (ucast b # map ucast q) = encodeUtf8 (unat b) @ toUtf8 (map ucast q)"
    by (simp only: toUtf8.simps u Let_def ns if_False)
  then show ?case using Cons by simp
qed

lemma encodeUtf8_latin1_nonzero: "b \<noteq> 0 \<Longrightarrow> 0 \<notin> set (encodeUtf8 (unat b))" for b :: "8 word"
proof -
  assume nz: "b \<noteq> 0"
  have lt: "unat b < 256" using unsigned_less [of b, where 'a = nat] by simp
  have pos: "0 < unat b" using nz by (simp add: unat_gt_0)
  show ?thesis
  proof (cases "unat b < 0x80")
    case True
    then show ?thesis using nz by (simp add: encodeUtf8_def)
  next
    case False
    have "unat b div 64 < 4" using lt by simp
    then have a: "unat (of_nat (0xC0 + unat b div 64) :: 8 word) = 0xC0 + unat b div 64"
      by (intro of_nat_inverse) simp_all
    have c: "unat (of_nat (0x80 + unat b mod 64) :: 8 word) = 0x80 + unat b mod 64"
      by (intro of_nat_inverse) simp_all
    have "(of_nat (0xC0 + unat b div 64) :: 8 word) \<noteq> 0"
      using a by (metis add_is_0 unat_0 zero_neq_numeral)
    moreover have "(of_nat (0x80 + unat b mod 64) :: 8 word) \<noteq> 0"
      using c by (metis add_is_0 unat_0 zero_neq_numeral)
    ultimately show ?thesis using False lt by (simp add: encodeUtf8_def del: of_nat_add)
  qed
qed

text \<open>The two exclusions are exact: with a NUL byte or a byte-order mark in front the bytes do not come back.\<close>

lemma plainText_no_roundtrip:
  assumes v: "valid_utf8 data" and x: "0 \<in> set data \<or> take 3 data = [0xEF, 0xBB, 0xBF]"
  shows "toUtf8 (plainTextStr data) \<noteq> data"
proof -
  have nz: "0 \<notin> set (untilNul data)"
    unfolding untilNul_def using set_takeWhileD [of 0 "\<lambda>b. b \<noteq> 0" data] by blast
  have ne: "skipBom (untilNul data) \<noteq> data"
  proof (cases "0 \<in> set data")
    case True
    have "set (skipBom (untilNul data)) \<subseteq> set (untilNul data)"
      unfolding skipBom_def using set_drop_subset [of 3 "untilNul data"] by simp
    with nz have "0 \<notin> set (skipBom (untilNul data))" by blast
    with True show ?thesis by metis
  next
    case False
    with x have bom: "take 3 data = [0xEF, 0xBB, 0xBF]" by simp
    then have "length (take 3 data) = 3" by simp
    then have "length (drop 3 data) < length data" by simp
    then have "drop 3 data \<noteq> data" by (metis less_irrefl)
    moreover have "skipBom (untilNul data) = drop 3 data"
      using bom untilNul_id [OF False] by (simp add: skipBom_def)
    ultimately show ?thesis by simp
  qed
  have "toUtf8 (fromUtf8 data) \<noteq> data"
    using ne fromUtf8_roundtrip [OF v] by simp
  then have latin: "plainTextStr data = map ucast (untilNul data)"
    by (simp add: plainTextStr_def fromLatin1_def)
  show ?thesis
  proof (cases "0 \<in> set data")
    case True
    have "0 \<notin> set (toUtf8 (map ucast (untilNul data)))"
    proof
      assume "0 \<in> set (toUtf8 (map ucast (untilNul data)))"
      then obtain b where b: "b \<in> set (untilNul data)" "0 \<in> set (encodeUtf8 (unat b))"
        unfolding toUtf8_latin1 by auto
      from b(1) nz have "b \<noteq> 0" by metis
      from encodeUtf8_latin1_nonzero [OF this] b(2) show False by simp
    qed
    with True show ?thesis unfolding latin by metis
  next
    case False
    with x have bom: "take 3 data = [0xEF, 0xBB, 0xBF]" by simp
    obtain r where d: "data = 0xEF # 0xBB # 0xBF # r"
      using bom_prefix [OF bom] by blast
    have e: "encodeUtf8 239 = [0xC3, 0xAF]"
      by (simp add: encodeUtf8_def)
    have "hd (toUtf8 (map ucast data)) = 0xC3"
      unfolding d toUtf8_latin1 by (simp add: e)
    moreover have "hd data = 0xEF" unfolding d by simp
    ultimately have "toUtf8 (map ucast data) \<noteq> data" by auto
    then show ?thesis
      unfolding latin untilNul_id [OF False] .
  qed
qed




end
